theory Spec2Isabelle
  imports Main "HOL-Library.Word"
begin

section \<open>The free store and the nodes of the tree (BST.h, lines 46--65)\<close>

text \<open>
  \<^verbatim>\<open>BinNode\<close> has a data part and two raw child pointers. A pointer is modelled as an
  optional address, \<open>None\<close> being \<^verbatim>\<open>nullptr\<close>. The free store is an arena: cell \<open>a\<close>
  holds \<open>Some n\<close> while the node allocated at \<open>a\<close> is alive and \<open>None\<close> once it has been
  deleted; addresses at or beyond the length of the arena were never handed out.
\<close>

type_synonym addr = nat

type_synonym BinNodePointer = "addr option"

record 'a BinNode =
  data :: 'a
  left :: BinNodePointer
  right :: BinNodePointer

type_synonym 'a store = "'a BinNode option list"

text \<open>The state of one \<^verbatim>\<open>BST\<close> object: its only data member \<^verbatim>\<open>myRoot\<close>, and the
  free store its nodes live in.\<close>

record 'a BST =
  cells :: "'a store"
  myRoot :: BinNodePointer

text \<open>The two exceptions of the class are both \<^verbatim>\<open>std::runtime_error\<close>; they differ in
  the message.\<close>

datatype exn = runtime_error string

text \<open>
  How a call ends: it returns, it throws (the state at the throw is kept), or it runs
  into undefined behaviour (dereferencing a pointer that is null, dangling or was never
  initialised). A call that does not end at all is the value \<open>None\<close> of the enclosing
  \<open>option\<close>.
\<close>

datatype 'r outcome = Returns 'r | Throws exn 'r | Undefined

definition cell :: "'a store \<Rightarrow> addr \<Rightarrow> 'a BinNode option" where
  "cell h a = (if a < length h then h ! a else None)"

text \<open>\<^verbatim>\<open>p->...\<close>: the node a pointer refers to, if it refers to a live node.\<close>

definition deref :: "'a store \<Rightarrow> BinNodePointer \<Rightarrow> 'a BinNode option" where
  "deref h p = (case p of None \<Rightarrow> None | Some a \<Rightarrow> cell h a)"

text \<open>\<^verbatim>\<open>new BinNode(item)\<close>: data part \<open>item\<close>, both links null, at an address not in use.\<close>

definition new_BinNode :: "'a \<Rightarrow> 'a store \<Rightarrow> BinNodePointer \<times> 'a store" where
  "new_BinNode item h =
     (Some (length h), h @ [Some \<lparr>data = item, left = None, right = None\<rparr>])"

text \<open>Assignment through a pointer to a live node.\<close>

definition put :: "'a store \<Rightarrow> addr \<Rightarrow> 'a BinNode \<Rightarrow> 'a store" where
  "put h a n = h[a := Some n]"

text \<open>\<^verbatim>\<open>delete x\<close>.\<close>

definition delete_BinNode :: "'a store \<Rightarrow> addr \<Rightarrow> 'a store" where
  "delete_BinNode h a = h[a := None]"

section \<open>Constructor, empty, search (lines 195--215)\<close>

definition BST_init :: "'a store \<Rightarrow> 'a BST" where
  "BST_init h = \<lparr>cells = h, myRoot = None\<rparr>"

definition empty_BST :: "'a BST \<Rightarrow> bool" where
  "empty_BST t = (myRoot t = None)"

text \<open>The body of \<^verbatim>\<open>search\<close> is \<^verbatim>\<open>bool found = false; /* add code here */ return found;\<close>\<close>

definition search :: "'a \<Rightarrow> 'a BST \<Rightarrow> bool" where
  "search item t = (let found = False in found)"

section \<open>insert (lines 218--249)\<close>

text \<open>The \<^verbatim>\<open>while (!found && locptr != nullptr)\<close> loop, on the variables
  \<open>found\<close>, \<open>locptr\<close>, \<open>parent\<close>.\<close>

partial_function (option) insert_loop ::
  "'a::linorder \<Rightarrow> 'a store \<Rightarrow> bool \<Rightarrow> BinNodePointer \<Rightarrow> BinNodePointer
     \<Rightarrow> (bool \<times> BinNodePointer \<times> BinNodePointer) outcome option"
where
  "insert_loop item h found locptr parent =
     (if \<not> found \<and> locptr \<noteq> None then
        (case deref h locptr of
           None \<Rightarrow> Some Undefined
         | Some n \<Rightarrow>
             if item < data n then insert_loop item h found (left n) locptr
             else if data n < item then insert_loop item h found (right n) locptr
             else insert_loop item h True locptr locptr)
      else Some (Returns (found, locptr, parent)))"

declare insert_loop.simps [code]

definition insert_BST :: "'a::linorder \<Rightarrow> 'a BST \<Rightarrow> 'a BST outcome option" where
  "insert_BST item t =
     Option.bind (insert_loop item (cells t) False (myRoot t) None) (\<lambda>r.
       case r of
         Returns (found, locptr, parent) \<Rightarrow>
           if \<not> found then
             (case new_BinNode item (cells t) of (locptr', h) \<Rightarrow>
                (case parent of
                   None \<Rightarrow> Some (Returns (t\<lparr>cells := h, myRoot := locptr'\<rparr>))
                 | Some pa \<Rightarrow>
                     (case cell h pa of
                        None \<Rightarrow> Some Undefined
                      | Some pn \<Rightarrow>
                          if item < data pn
                          then Some (Returns (t\<lparr>cells := put h pa (pn\<lparr>left := locptr'\<rparr>)\<rparr>))
                          else Some (Returns (t\<lparr>cells := put h pa (pn\<lparr>right := locptr'\<rparr>)\<rparr>)))))
           else Some (Throws (runtime_error ''Item already in the tree'') t)
       | _ \<Rightarrow> Some Undefined)"

section \<open>remove and search2 (lines 252--296, 325--336)\<close>

text \<open>
  The body of \<^verbatim>\<open>search2\<close> is empty, so its three reference parameters \<open>found\<close>,
  \<open>locptr\<close> and \<open>parent\<close> keep the values the caller's variables had.
\<close>

definition search2 ::
  "'a \<Rightarrow> 'a BST \<Rightarrow> bool \<times> BinNodePointer \<times> BinNodePointer
     \<Rightarrow> bool \<times> BinNodePointer \<times> BinNodePointer"
where
  "search2 item t refs = refs"

text \<open>The loop \<^verbatim>\<open>while (xSucc->left != nullptr) { parent = xSucc; xSucc = xSucc->left; }\<close>\<close>

partial_function (option) successor_loop ::
  "'a store \<Rightarrow> BinNodePointer \<Rightarrow> BinNodePointer
     \<Rightarrow> (BinNodePointer \<times> BinNodePointer) outcome option"
where
  "successor_loop h xSucc parent =
     (case deref h xSucc of
        None \<Rightarrow> Some Undefined
      | Some n \<Rightarrow>
          if left n \<noteq> None then successor_loop h (left n) xSucc
          else Some (Returns (xSucc, parent)))"

declare successor_loop.simps [code]

text \<open>Lines 284--295: a subtree of \<open>x\<close> (the left one if there is one, else the right
  one) takes the place of \<open>x\<close> below \<open>parent\<close>, or at the root when \<open>parent\<close> is null,
  and \<open>x\<close> is deleted.\<close>

definition unlink_node :: "'a BST \<Rightarrow> BinNodePointer \<Rightarrow> BinNodePointer \<Rightarrow> 'a BST outcome" where
  "unlink_node t x parent =
     (case x of
        None \<Rightarrow> Undefined
      | Some xa \<Rightarrow>
          (case cell (cells t) xa of
             None \<Rightarrow> Undefined
           | Some xn \<Rightarrow>
               (let subtree = left xn;
                    subtree = (if subtree = None then right xn else subtree)
                in case parent of
                     None \<Rightarrow>
                       Returns (t\<lparr>cells := delete_BinNode (cells t) xa, myRoot := subtree\<rparr>)
                   | Some pa \<Rightarrow>
                       (case cell (cells t) pa of
                          None \<Rightarrow> Undefined
                        | Some pn \<Rightarrow>
                            if left pn = x
                            then Returns (t\<lparr>cells :=
                                   delete_BinNode (put (cells t) pa (pn\<lparr>left := subtree\<rparr>)) xa\<rparr>)
                            else Returns (t\<lparr>cells :=
                                   delete_BinNode (put (cells t) pa (pn\<lparr>right := subtree\<rparr>)) xa\<rparr>)))))"

text \<open>
  \<^verbatim>\<open>remove\<close> declares \<open>found\<close>, \<open>x\<close> and \<open>parent\<close> without initialising them and
  hands them to \<^verbatim>\<open>search2\<close>. What they hold is not determined by the program; the model
  takes it as three further arguments \<open>found0\<close>, \<open>x0\<close>, \<open>parent0\<close>.
\<close>

definition remove_BST ::
  "'a \<Rightarrow> 'a BST \<Rightarrow> bool \<Rightarrow> BinNodePointer \<Rightarrow> BinNodePointer \<Rightarrow> 'a BST outcome option"
where
  "remove_BST item t found0 x0 parent0 =
     (case search2 item t (found0, x0, parent0) of (found, x, parent) \<Rightarrow>
        if \<not> found then Some (Throws (runtime_error ''Item not in the BST'') t)
        else
          (case x of
             None \<Rightarrow> Some Undefined
           | Some xa \<Rightarrow>
               (case cell (cells t) xa of
                  None \<Rightarrow> Some Undefined
                | Some xn \<Rightarrow>
                    if left xn \<noteq> None \<and> right xn \<noteq> None then
                      Option.bind (successor_loop (cells t) (right xn) x) (\<lambda>r.
                        case r of
                          Returns (xSucc, parent') \<Rightarrow>
                            (case deref (cells t) xSucc of
                               None \<Rightarrow> Some Undefined
                             | Some sn \<Rightarrow>
                                 Some (unlink_node
                                   (t\<lparr>cells := put (cells t) xa (xn\<lparr>data := data sn\<rparr>)\<rparr>)
                                   xSucc parent'))
                        | _ \<Rightarrow> Some Undefined)
                    else Some (unlink_node t x parent))))"

section \<open>Traversals and graph (lines 298--384)\<close>

text \<open>
  The output stream is the text written to it so far; \<^verbatim>\<open>out << subtreeRoot->data\<close> needs
  the text of a data value, a parameter \<open>fmt\<close> of the model. The traversals are member
  functions that are not \<^verbatim>\<open>const\<close>: they are modelled on the pair of the tree's state and
  the stream, and read the node again after each recursive call, as the code does.

  Of the formatting state of the stream, \<^verbatim>\<open>graphAux\<close> reads, through \<^verbatim>\<open>std::setw\<close>, the fill
  character and the adjustment. No operation of the class changes them, so they are an
  argument of \<^verbatim>\<open>graph\<close> in the model. The stream is taken to accept what is written.
\<close>

record ios =
  fill_char :: char
  left_adjusted :: bool

definition endl :: string where
  "endl = [CHR 0x0A]"

text \<open>\<^verbatim>\<open>out << std::setw(w) << s\<close>: the text \<open>s\<close>, widened to \<open>w\<close> characters with the fill
  character of the stream, before \<open>s\<close> unless the stream is left-adjusted; nothing is
  added when \<open>s\<close> is that wide already (the subtraction on \<open>nat\<close> stops at 0).\<close>

definition setw :: "ios \<Rightarrow> int \<Rightarrow> string \<Rightarrow> string" where
  "setw st w s =
     (let padding = replicate (nat w - length s) (fill_char st)
      in if left_adjusted st then s @ padding else padding @ s)"

partial_function (option) inorderAux ::
  "('a \<Rightarrow> string) \<Rightarrow> 'a BST \<times> string \<Rightarrow> BinNodePointer \<Rightarrow> string
     \<Rightarrow> ('a BST \<times> string) outcome option"
where
  "inorderAux fmt w subtreeRoot separator =
     (case subtreeRoot of
        None \<Rightarrow> Some (Returns w)
      | Some a \<Rightarrow>
          (case cell (cells (fst w)) a of
             None \<Rightarrow> Some Undefined
           | Some n \<Rightarrow>
               Option.bind (inorderAux fmt w (left n) separator) (\<lambda>r.
                 case r of
                   Returns w1 \<Rightarrow>
                     (case cell (cells (fst w1)) a of
                        None \<Rightarrow> Some Undefined
                      | Some n1 \<Rightarrow>
                          inorderAux fmt (fst w1, snd w1 @ fmt (data n1) @ separator)
                            (right n1) separator)
                 | _ \<Rightarrow> Some Undefined)))"

declare inorderAux.simps [code]

definition inorder ::
  "('a \<Rightarrow> string) \<Rightarrow> 'a BST \<Rightarrow> string \<Rightarrow> string \<Rightarrow> ('a BST \<times> string) outcome option"
where
  "inorder fmt t out separator = inorderAux fmt (t, out) (myRoot t) separator"

text \<open>The bodies of \<^verbatim>\<open>preorderAux\<close>, \<^verbatim>\<open>postorderAux\<close>, \<^verbatim>\<open>preorder\<close> and \<^verbatim>\<open>postorder\<close>
  are empty.\<close>

definition preorderAux ::
  "('a \<Rightarrow> string) \<Rightarrow> 'a BST \<times> string \<Rightarrow> BinNodePointer \<Rightarrow> string
     \<Rightarrow> ('a BST \<times> string) outcome option"
where
  "preorderAux fmt w subtreeRoot separator = Some (Returns w)"

definition postorderAux ::
  "('a \<Rightarrow> string) \<Rightarrow> 'a BST \<times> string \<Rightarrow> BinNodePointer \<Rightarrow> string
     \<Rightarrow> ('a BST \<times> string) outcome option"
where
  "postorderAux fmt w subtreeRoot separator = Some (Returns w)"

definition preorder ::
  "('a \<Rightarrow> string) \<Rightarrow> 'a BST \<Rightarrow> string \<Rightarrow> string \<Rightarrow> ('a BST \<times> string) outcome option"
where
  "preorder fmt t out separator = Some (Returns (t, out))"

definition postorder ::
  "('a \<Rightarrow> string) \<Rightarrow> 'a BST \<Rightarrow> string \<Rightarrow> string \<Rightarrow> ('a BST \<times> string) outcome option"
where
  "postorder fmt t out separator = Some (Returns (t, out))"

text \<open>\<open>indent\<close> is a C++ \<^verbatim>\<open>int\<close>, taken to be 32 bits wide; \<open>indent + 8\<close> is the machine's
  addition.\<close>

partial_function (option) graphAux ::
  "('a \<Rightarrow> string) \<Rightarrow> ios \<Rightarrow> 'a BST \<times> string \<Rightarrow> 32 word \<Rightarrow> BinNodePointer
     \<Rightarrow> ('a BST \<times> string) outcome option"
where
  "graphAux fmt st w indent subtreeRoot =
     (case subtreeRoot of
        None \<Rightarrow> Some (Returns (fst w, snd w @ setw st (sint indent) '' '' @ ''_'' @ endl))
      | Some a \<Rightarrow>
          (case cell (cells (fst w)) a of
             None \<Rightarrow> Some Undefined
           | Some n \<Rightarrow>
               Option.bind (graphAux fmt st w (indent + 8) (right n)) (\<lambda>r.
                 case r of
                   Returns w1 \<Rightarrow>
                     (case cell (cells (fst w1)) a of
                        None \<Rightarrow> Some Undefined
                      | Some n1 \<Rightarrow>
                          graphAux fmt st
                            (fst w1, snd w1 @ setw st (sint indent) '' '' @ fmt (data n1) @ endl)
                            (indent + 8) (left n1))
                 | _ \<Rightarrow> Some Undefined)))"

declare graphAux.simps [code]

definition graph ::
  "('a \<Rightarrow> string) \<Rightarrow> ios \<Rightarrow> 'a BST \<Rightarrow> string \<Rightarrow> ('a BST \<times> string) outcome option"
where
  "graph fmt st t out = graphAux fmt st (t, out) 0 (myRoot t)"

section \<open>What a store holds: the shape of a tree, and the order invariant\<close>

text \<open>
  The tree a pointer leads to, read off the store: which node (address and value) stands
  where. \<open>layout_at h p s\<close> says that following the links of \<open>h\<close> from \<open>p\<close> gives
  exactly \<open>s\<close>; such an \<open>s\<close> is finite, so the links from \<open>p\<close> never run in a circle and
  never leave the live cells.
\<close>

datatype 'a layout = Absent | Linked "'a layout" addr 'a "'a layout"

fun layout_at :: "'a store \<Rightarrow> BinNodePointer \<Rightarrow> 'a layout \<Rightarrow> bool" where
  "layout_at h p Absent = (p = None)"
| "layout_at h p (Linked l a v r) =
     (p = Some a \<and>
      (case cell h a of
         None \<Rightarrow> False
       | Some n \<Rightarrow> data n = v \<and> layout_at h (left n) l \<and> layout_at h (right n) r))"

text \<open>The values and the addresses of a layout, left subtree first, then the node, then
  the right subtree.\<close>

fun values_of :: "'a layout \<Rightarrow> 'a list" where
  "values_of Absent = []"
| "values_of (Linked l a v r) = values_of l @ v # values_of r"

fun addrs_of :: "'a layout \<Rightarrow> addr list" where
  "addrs_of Absent = []"
| "addrs_of (Linked l a v r) = addrs_of l @ a # addrs_of r"

text \<open>The order invariant of the specification: at every node, every value of the left
  subtree is strictly less and every value of the right subtree strictly greater.\<close>

fun bst_order :: "'a::linorder layout \<Rightarrow> bool" where
  "bst_order Absent = True"
| "bst_order (Linked l a v r) =
     (bst_order l \<and> bst_order r \<and>
      (\<forall>x \<in> set (values_of l). x < v) \<and> (\<forall>x \<in> set (values_of r). v < x))"

text \<open>The node and all nodes below it, each with what hangs from it.\<close>

fun subtrees :: "'a layout \<Rightarrow> 'a layout list" where
  "subtrees Absent = []"
| "subtrees (Linked l a v r) = Linked l a v r # subtrees l @ subtrees r"

subsection \<open>The specification's words for insert\<close>

text \<open>The node the descent of the specification visits last: left where the item is
  less, right where it is greater, stopping at an equal value or an absent child.\<close>

fun last_visited :: "'a::linorder \<Rightarrow> 'a layout \<Rightarrow> BinNodePointer \<Rightarrow> BinNodePointer" where
  "last_visited item Absent parent = parent"
| "last_visited item (Linked l a v r) parent =
     (if item < v then last_visited item l (Some a)
      else if v < item then last_visited item r (Some a)
      else Some a)"

text \<open>The layout the specification asks for after inserting \<open>item\<close>: a node with no
  children at the address \<open>b\<close>, in the place of the absent child the descent ended at.\<close>

fun grow :: "addr \<Rightarrow> 'a::linorder \<Rightarrow> 'a layout \<Rightarrow> 'a layout" where
  "grow b item Absent = Linked Absent b item Absent"
| "grow b item (Linked l a v r) =
     (if item < v then Linked (grow b item l) a v r
      else if v < item then Linked l a v (grow b item r)
      else Linked l a v r)"

text \<open>The store after lines 237--243 have allocated the node and linked it below the
  live node \<open>pn\<close> at \<open>pa\<close>.\<close>

definition linked_store :: "'a::linorder store \<Rightarrow> 'a \<Rightarrow> addr \<Rightarrow> 'a BinNode \<Rightarrow> 'a store" where
  "linked_store h item pa pn =
     (let h1 = h @ [Some \<lparr>data = item, left = None, right = None\<rparr>]
      in if item < data pn then put h1 pa (pn\<lparr>left := Some (length h)\<rparr>)
         else put h1 pa (pn\<lparr>right := Some (length h)\<rparr>))"

subsection \<open>The specification's words for the inorder successor\<close>

text \<open>Descending left until no left child remains: the address and value of the node
  reached, and what hangs to its right.\<close>

fun succ_of :: "'a layout \<Rightarrow> (addr \<times> 'a \<times> 'a layout) option" where
  "succ_of Absent = None"
| "succ_of (Linked l a v r) = (if l = Absent then Some (a, v, r) else succ_of l)"

text \<open>The parent of that node, for a layout that hangs below the node at \<open>x\<close>.\<close>

fun succ_parent :: "addr \<Rightarrow> 'a layout \<Rightarrow> addr" where
  "succ_parent x Absent = x"
| "succ_parent x (Linked l a v r) = (if l = Absent then x else succ_parent a l)"

text \<open>The layout with that node unlinked: its right subtree takes its place.\<close>

fun without_succ :: "'a layout \<Rightarrow> 'a layout" where
  "without_succ Absent = Absent"
| "without_succ (Linked l a v r) = (if l = Absent then r else Linked (without_succ l) a v r)"

subsection \<open>The specification's words for the printed text\<close>

definition inorder_text :: "('a \<Rightarrow> string) \<Rightarrow> string \<Rightarrow> 'a layout \<Rightarrow> string" where
  "inorder_text fmt separator s = concat (map (\<lambda>v. fmt v @ separator) (values_of s))"


text \<open>
  The same picture with another margin: one blank, widened to \<open>indent\<close> characters with
  the fill character of the stream. On a stream as it is constructed that is \<open>indent\<close>
  blanks, but one blank where \<open>indent\<close> is 0.
\<close>

definition margin :: "ios \<Rightarrow> nat \<Rightarrow> string" where
  "margin st indent =
     (if left_adjusted st then '' '' @ replicate (indent - 1) (fill_char st)
      else replicate (indent - 1) (fill_char st) @ '' '')"



text \<open>The formatting state of a stream as it is constructed, and one that fills with
  stars.\<close>

definition plain :: ios where
  "plain = \<lparr>fill_char = CHR '' '', left_adjusted = False\<rparr>"

definition starred :: ios where
  "starred = \<lparr>fill_char = CHR ''*'', left_adjusted = False\<rparr>"

subsection \<open>A caller\<close>

text \<open>A caller that inserts the items of a list one after the other and carries on
  after the exception of a duplicate.\<close>

fun insert_all :: "'a::linorder list \<Rightarrow> 'a BST \<Rightarrow> 'a BST outcome option" where
  "insert_all [] t = Some (Returns t)"
| "insert_all (x # xs) t =
     (case insert_BST x t of
        Some (Returns t') \<Rightarrow> insert_all xs t'
      | Some (Throws e t') \<Rightarrow> insert_all xs t'
      | r \<Rightarrow> r)"

subsection \<open>Example trees\<close>

text \<open>The trees after inserting 5, then 3, then 8 into the empty tree.\<close>

definition tree_5 :: "int BST" where
  "tree_5 = \<lparr>cells = [Some \<lparr>data = 5, left = None, right = None\<rparr>], myRoot = Some 0\<rparr>"

definition tree_5_3 :: "int BST" where
  "tree_5_3 =
     \<lparr>cells = [Some \<lparr>data = 5, left = Some 1, right = None\<rparr>,
               Some \<lparr>data = 3, left = None, right = None\<rparr>],
      myRoot = Some 0\<rparr>"

definition tree_5_3_8 :: "int BST" where
  "tree_5_3_8 =
     \<lparr>cells = [Some \<lparr>data = 5, left = Some 1, right = Some 2\<rparr>,
               Some \<lparr>data = 3, left = None, right = None\<rparr>,
               Some \<lparr>data = 8, left = None, right = None\<rparr>],
      myRoot = Some 0\<rparr>"

text \<open>The tree after inserting 5, 3, 8, 1, 4, 7, 9, and what \<^verbatim>\<open>remove\<close> makes of it when
  its variables hold \<open>found = true\<close> and \<open>x\<close> the root.\<close>

definition tree_7 :: "int BST" where
  "tree_7 =
     \<lparr>cells = [Some \<lparr>data = 5, left = Some 1, right = Some 2\<rparr>,
               Some \<lparr>data = 3, left = Some 3, right = Some 4\<rparr>,
               Some \<lparr>data = 8, left = Some 5, right = Some 6\<rparr>,
               Some \<lparr>data = 1, left = None, right = None\<rparr>,
               Some \<lparr>data = 4, left = None, right = None\<rparr>,
               Some \<lparr>data = 7, left = None, right = None\<rparr>,
               Some \<lparr>data = 9, left = None, right = None\<rparr>],
      myRoot = Some 0\<rparr>"

definition tree_7_without_5 :: "int BST" where
  "tree_7_without_5 =
     \<lparr>cells = [Some \<lparr>data = 7, left = Some 1, right = Some 2\<rparr>,
               Some \<lparr>data = 3, left = Some 3, right = Some 4\<rparr>,
               Some \<lparr>data = 8, left = None, right = Some 6\<rparr>,
               Some \<lparr>data = 1, left = None, right = None\<rparr>,
               Some \<lparr>data = 4, left = None, right = None\<rparr>,
               None,
               Some \<lparr>data = 9, left = None, right = None\<rparr>],
      myRoot = Some 0\<rparr>"

text \<open>What is left of the tree of 5, 3, 8 when \<^verbatim>\<open>remove\<close> runs with \<open>found = true\<close>,
  \<open>x\<close> the node of 3 and \<open>parent\<close> the node of 8.\<close>

definition tree_5_3_8_dangling :: "int BST" where
  "tree_5_3_8_dangling =
     \<lparr>cells = [Some \<lparr>data = 5, left = Some 1, right = Some 2\<rparr>,
               None,
               Some \<lparr>data = 8, left = None, right = None\<rparr>],
      myRoot = Some 0\<rparr>"

text \<open>What is left of the tree of 5, 3, 8 when \<^verbatim>\<open>remove\<close> runs with \<open>found = true\<close>,
  \<open>x\<close> the node of 3 and \<open>parent\<close> the root.\<close>

definition tree_5_8 :: "int BST" where
  "tree_5_8 =
     \<lparr>cells = [Some \<lparr>data = 5, left = None, right = Some 2\<rparr>,
               None,
               Some \<lparr>data = 8, left = None, right = None\<rparr>],
      myRoot = Some 0\<rparr>"

definition layout_5_3_8 :: "int layout" where
  "layout_5_3_8 = Linked (Linked Absent 1 3 Absent) 0 5 (Linked Absent 2 8 Absent)"


text \<open>A way of writing the values 0 to 9.\<close>

definition digit :: "int \<Rightarrow> string" where
  "digit i = [char_of (48 + i)]"

section \<open>Facts about stores and layouts\<close>

lemma cell_live: "cell h a = Some n \<Longrightarrow> a < length h"
  by (simp add: cell_def split: if_splits)

lemma layout_at_frame:
  "layout_at h p s \<Longrightarrow> (\<forall>a \<in> set (addrs_of s). cell h' a = cell h a) \<Longrightarrow> layout_at h' p s"
proof (induction s arbitrary: p)
  case Absent
  then show ?case by simp
next
  case (Linked l a v r)
  then show ?case by (auto split: option.splits)
qed

lemma layout_at_cell:
  "layout_at h p s \<Longrightarrow> a \<in> set (addrs_of s) \<Longrightarrow> \<exists>n. cell h a = Some n \<and> data n \<in> set (values_of s)"
proof (induction s arbitrary: p)
  case Absent
  then show ?case by simp
next
  case (Linked l b v r)
  then show ?case by (fastforce split: option.splits)
qed

lemma bst_order_distinct:
  "layout_at h p s \<Longrightarrow> bst_order s \<Longrightarrow> distinct (addrs_of s)"
proof (induction s arbitrary: p)
  case Absent
  then show ?case by simp
next
  case (Linked l a v r)
  from Linked.prems obtain n where n: "cell h a = Some n" "data n = v"
    "layout_at h (left n) l" "layout_at h (right n) r"
    by (auto split: option.splits)
  have dl: "distinct (addrs_of l)" and dr: "distinct (addrs_of r)"
    using Linked.IH n Linked.prems(2) by auto
  have al: "a \<notin> set (addrs_of l)"
    using layout_at_cell[OF n(3), of a] n(1,2) Linked.prems(2) by auto
  have ar: "a \<notin> set (addrs_of r)"
    using layout_at_cell[OF n(4), of a] n(1,2) Linked.prems(2) by auto
  have lr: "set (addrs_of l) \<inter> set (addrs_of r) = {}"
  proof (rule ccontr)
    assume "set (addrs_of l) \<inter> set (addrs_of r) \<noteq> {}"
    then obtain c where c: "c \<in> set (addrs_of l)" "c \<in> set (addrs_of r)" by auto
    from layout_at_cell[OF n(3) c(1)] layout_at_cell[OF n(4) c(2)]
    obtain x where "x \<in> set (values_of l)" "x \<in> set (values_of r)" by auto
    with Linked.prems(2) have "x < v" "v < x" by auto
    then show False by simp
  qed
  show ?case using dl dr al ar lr by auto
qed

lemma insert_loop_found:
  "layout_at h p s \<Longrightarrow> bst_order s \<Longrightarrow> item \<in> set (values_of s) \<Longrightarrow>
   insert_loop item h False p parent = Some (Returns (True, last_visited item s parent, last_visited item s parent))"
proof (induction s arbitrary: p parent)
  case Absent
  then show ?case by simp
next
  case (Linked l a v r)
  from Linked.prems obtain n where n: "p = Some a" "cell h a = Some n" "data n = v"
    "layout_at h (left n) l" "layout_at h (right n) r"
    by (auto split: option.splits)
  show ?case
  proof (cases "item < v")
    case True
    then have "item \<in> set (values_of l)" using Linked.prems by auto
    then show ?thesis using Linked.IH(1)[OF n(4), of "Some a"] Linked.prems(2) True n
      by (subst insert_loop.simps) (simp add: deref_def)
  next
    case False
    show ?thesis
    proof (cases "v < item")
      case True
      then have "item \<in> set (values_of r)" using Linked.prems by auto
      then show ?thesis using Linked.IH(2)[OF n(5), of "Some a"] Linked.prems(2) True False n
        by (subst insert_loop.simps) (simp add: deref_def)
    next
      case nlt: False
      have "insert_loop item h True (Some a) (Some a) = Some (Returns (True, Some a, Some a))"
        by (subst insert_loop.simps) simp
      then show ?thesis using False nlt n
        by (subst insert_loop.simps) (simp add: deref_def)
    qed
  qed
qed

lemma insert_loop_absent:
  "layout_at h p s \<Longrightarrow> item \<notin> set (values_of s) \<Longrightarrow>
   insert_loop item h False p parent = Some (Returns (False, None, last_visited item s parent))"
proof (induction s arbitrary: p parent)
  case Absent
  then show ?case by (subst insert_loop.simps) simp
next
  case (Linked l a v r)
  from Linked.prems obtain n where n: "p = Some a" "cell h a = Some n" "data n = v"
    "layout_at h (left n) l" "layout_at h (right n) r"
    by (auto split: option.splits)
  from Linked.prems(2) have ne: "item \<noteq> v" "item \<notin> set (values_of l)" "item \<notin> set (values_of r)"
    by auto
  show ?case
    using Linked.IH(1)[OF n(4) ne(2), of "Some a"] Linked.IH(2)[OF n(5) ne(3), of "Some a"] n ne(1)
    by (subst insert_loop.simps) (auto simp add: deref_def)
qed


lemma last_visited_in:
  "s \<noteq> Absent \<Longrightarrow> item \<notin> set (values_of s) \<Longrightarrow>
   \<exists>a \<in> set (addrs_of s). last_visited item s parent = Some a"
proof (induction s arbitrary: parent)
  case Absent
  then show ?case by simp
next
  case (Linked l a v r)
  show ?case
  proof (cases "item < v")
    case True
    show ?thesis
    proof (cases l)
      case Absent
      then show ?thesis using True by simp
    next
      case (Linked l1 a1 v1 r1)
      then have "\<exists>c \<in> set (addrs_of l). last_visited item l (Some a) = Some c"
        using Linked.IH(1)[of "Some a"] Linked.prems by auto
      then show ?thesis using True by auto
    qed
  next
    case False
    then have gt: "v < item" using Linked.prems(2) by auto
    show ?thesis
    proof (cases r)
      case Absent
      then show ?thesis using False gt by simp
    next
      case (Linked l1 a1 v1 r1)
      then have "\<exists>c \<in> set (addrs_of r). last_visited item r (Some a) = Some c"
        using Linked.IH(2)[of "Some a"] Linked.prems by auto
      then show ?thesis using False gt by auto
    qed
  qed
qed

lemma layout_at_live:
  "layout_at h p s \<Longrightarrow> a \<in> set (addrs_of s) \<Longrightarrow> a < length h"
  using layout_at_cell cell_live by blast

lemma cell_append_old: "a < length h \<Longrightarrow> cell (h @ xs) a = cell h a"
  by (simp add: cell_def nth_append)

lemma cell_append_new: "cell (h @ [x]) (length h) = x"
  by (simp add: cell_def)

lemma cell_put_same: "a < length h \<Longrightarrow> cell (put h a n) a = Some n"
  by (simp add: cell_def put_def)

lemma cell_put_other: "a \<noteq> b \<Longrightarrow> cell (put h b n) a = cell h a"
  by (simp add: cell_def put_def)

lemma length_put: "length (put h a n) = length h"
  by (simp add: put_def)

lemma grow_layout:
  "layout_at h p s \<Longrightarrow> bst_order s \<Longrightarrow> item \<notin> set (values_of s) \<Longrightarrow> s \<noteq> Absent \<Longrightarrow>
   last_visited item s parent = Some pa \<Longrightarrow> cell h pa = Some pn \<Longrightarrow>
   layout_at (linked_store h item pa pn) p (grow (length h) item s)"
proof (induction s arbitrary: p parent)
  case Absent
  then show ?case by simp
next
  case (Linked l a v r)
  let ?h' = "linked_store h item pa pn"
  let ?b = "length h"
  from Linked.prems(1) obtain n where n: "p = Some a" "cell h a = Some n" "data n = v"
    "layout_at h (left n) l" "layout_at h (right n) r"
    by (auto split: option.splits)
  have dist: "distinct (addrs_of (Linked l a v r))"
    using bst_order_distinct[OF Linked.prems(1,2)] .
  have a_live: "a < ?b" using n(2) by (rule cell_live)
  have pa_live: "pa < ?b" using Linked.prems(6) by (rule cell_live)
  have new: "cell ?h' ?b = Some \<lparr>data = item, left = None, right = None\<rparr>"
    using pa_live by (simp add: linked_store_def Let_def cell_put_other cell_append_new)
  have other: "\<And>c. c < ?b \<Longrightarrow> c \<noteq> pa \<Longrightarrow> cell ?h' c = cell h c"
    by (simp add: linked_store_def Let_def cell_put_other cell_append_old)
  have ne: "item \<noteq> v" "item \<notin> set (values_of l)" "item \<notin> set (values_of r)"
    using Linked.prems(3) by auto
  have keep: "\<And>u q. layout_at h q u \<Longrightarrow> pa \<notin> set (addrs_of u) \<Longrightarrow> layout_at ?h' q u"
  proof -
    fix u q assume u: "layout_at h q u" "pa \<notin> set (addrs_of u)"
    have "\<forall>c \<in> set (addrs_of u). cell ?h' c = cell h c"
      using other layout_at_live[OF u(1)] u(2) by auto
    with u(1) show "layout_at ?h' q u" by (rule layout_at_frame)
  qed
  show ?case
  proof (cases "item < v")
    case True
    show ?thesis
    proof (cases "l = Absent")
      case la: True
      then have pa: "pa = a" using Linked.prems(5) True by simp
      have ln: "left n = None" using n(4) la by simp
      have ca: "cell ?h' a = Some (n\<lparr>left := Some ?b\<rparr>)"
        using pa True n(2,3) Linked.prems(6) a_live
        by (simp add: linked_store_def Let_def cell_put_same)
      have "layout_at ?h' (right n) r"
        using keep[OF n(5)] dist pa by simp
      then show ?thesis using True la n ca new by simp
    next
      case lna: False
      have lv: "last_visited item l (Some a) = Some pa" using Linked.prems(5) True by simp
      from last_visited_in[OF lna ne(2), of "Some a"] lv have pal: "pa \<in> set (addrs_of l)" by auto
      then have pne: "pa \<noteq> a" "pa \<notin> set (addrs_of r)" using dist by auto
      have ca: "cell ?h' a = Some n" using other[OF a_live] pne n(2) by simp
      have "layout_at ?h' (left n) (grow ?b item l)"
        using Linked.IH(1)[OF n(4) _ ne(2) lna lv Linked.prems(6)] Linked.prems(2) by simp
      moreover have "layout_at ?h' (right n) r" using keep[OF n(5) pne(2)] .
      ultimately show ?thesis using True n ca by simp
    qed
  next
    case False
    then have gt: "v < item" using ne(1) by auto
    show ?thesis
    proof (cases "r = Absent")
      case ra: True
      then have pa: "pa = a" using Linked.prems(5) False gt by simp
      have rn: "right n = None" using n(5) ra by simp
      have ca: "cell ?h' a = Some (n\<lparr>right := Some ?b\<rparr>)"
        using pa False n(2,3) Linked.prems(6) a_live
        by (simp add: linked_store_def Let_def cell_put_same)
      have "layout_at ?h' (left n) l"
        using keep[OF n(4)] dist pa by simp
      then show ?thesis using False gt ra n ca new by simp
    next
      case rna: False
      have lv: "last_visited item r (Some a) = Some pa" using Linked.prems(5) False gt by simp
      from last_visited_in[OF rna ne(3), of "Some a"] lv have par: "pa \<in> set (addrs_of r)" by auto
      then have pne: "pa \<noteq> a" "pa \<notin> set (addrs_of l)" using dist by auto
      have ca: "cell ?h' a = Some n" using other[OF a_live] pne n(2) by simp
      have "layout_at ?h' (right n) (grow ?b item r)"
        using Linked.IH(2)[OF n(5) _ ne(3) rna lv Linked.prems(6)] Linked.prems(2) by simp
      moreover have "layout_at ?h' (left n) l" using keep[OF n(4) pne(2)] .
      ultimately show ?thesis using False gt n ca by simp
    qed
  qed
qed


lemma set_values_of_grow:
  "item \<notin> set (values_of s) \<Longrightarrow> set (values_of (grow b item s)) = insert item (set (values_of s))"
  by (induction s) auto

lemma bst_order_grow:
  "bst_order s \<Longrightarrow> item \<notin> set (values_of s) \<Longrightarrow> bst_order (grow b item s)"
  by (induction s) (auto simp: set_values_of_grow)

lemma length_values_of_grow:
  "item \<notin> set (values_of s) \<Longrightarrow> length (values_of (grow b item s)) = Suc (length (values_of s))"
  by (induction s) auto


lemma bst_order_sorted: "bst_order s = sorted_wrt (<) (values_of s)"
  by (induction s) (auto simp: sorted_wrt_append intro: less_trans)

lemma bst_order_distinct_values: "bst_order s \<Longrightarrow> distinct (values_of s)"
  by (simp add: bst_order_sorted strict_sorted_iff)

lemma last_visited_stop:
  "layout_at h p s \<Longrightarrow> item \<notin> set (values_of s) \<Longrightarrow> s \<noteq> Absent \<Longrightarrow>
   last_visited item s parent = Some pa \<Longrightarrow> cell h pa = Some pn \<Longrightarrow>
   (if item < data pn then left pn = None else data pn < item \<and> right pn = None)"
proof (induction s arbitrary: p parent)
  case Absent
  then show ?case by simp
next
  case (Linked l a v r)
  from Linked.prems(1) obtain n where n: "p = Some a" "cell h a = Some n" "data n = v"
    "layout_at h (left n) l" "layout_at h (right n) r"
    by (auto split: option.splits)
  have ne: "item \<noteq> v" "item \<notin> set (values_of l)" "item \<notin> set (values_of r)"
    using Linked.prems(2) by auto
  show ?case
  proof (cases "item < v")
    case True
    show ?thesis
    proof (cases "l = Absent")
      case la: True
      then have "pa = a" using Linked.prems(4) True by simp
      then show ?thesis using n la True Linked.prems(5) by simp
    next
      case lna: False
      show ?thesis
        using Linked.IH(1)[OF n(4) ne(2) lna _ Linked.prems(5), of "Some a"] Linked.prems(4) True
        by simp
    qed
  next
    case False
    then have gt: "v < item" using ne(1) by auto
    show ?thesis
    proof (cases "r = Absent")
      case ra: True
      then have "pa = a" using Linked.prems(4) False gt by simp
      then show ?thesis using n ra False gt Linked.prems(5) by simp
    next
      case rna: False
      show ?thesis
        using Linked.IH(2)[OF n(5) ne(3) rna _ Linked.prems(5), of "Some a"] Linked.prems(4) False gt
        by simp
    qed
  qed
qed

lemma insert_BST_root:
  "layout_at (cells t) (myRoot t) Absent \<Longrightarrow>
   insert_BST item t = Some (Returns (t\<lparr>cells := cells t @ [Some \<lparr>data = item, left = None, right = None\<rparr>],
                                        myRoot := Some (length (cells t))\<rparr>))"
  by (simp add: insert_BST_def insert_loop.simps new_BinNode_def)

lemma insert_BST_below:
  assumes "layout_at (cells t) (myRoot t) s" "item \<notin> set (values_of s)" "s \<noteq> Absent"
  shows "\<exists>pa pn. last_visited item s None = Some pa \<and> cell (cells t) pa = Some pn \<and>
           insert_BST item t = Some (Returns (t\<lparr>cells := linked_store (cells t) item pa pn\<rparr>))"
proof -
  from last_visited_in[OF assms(3,2), of None] obtain pa where
    pa: "pa \<in> set (addrs_of s)" "last_visited item s None = Some pa" by auto
  from layout_at_cell[OF assms(1) pa(1)] obtain pn where pn: "cell (cells t) pa = Some pn" by auto
  have live: "pa < length (cells t)" using pn by (rule cell_live)
  have "insert_BST item t = Some (Returns (t\<lparr>cells := linked_store (cells t) item pa pn\<rparr>))"
    using insert_loop_absent[OF assms(1,2), of None] pa(2) pn live
    by (simp add: insert_BST_def new_BinNode_def linked_store_def Let_def cell_append_old)
  with pa(2) pn show ?thesis by blast
qed

lemma length_linked_store: "length (linked_store h item pa pn) = Suc (length h)"
  by (simp add: linked_store_def Let_def length_put)

lemma cell_linked_store_new:
  "pa < length h \<Longrightarrow>
   cell (linked_store h item pa pn) (length h) = Some \<lparr>data = item, left = None, right = None\<rparr>"
  by (simp add: linked_store_def Let_def cell_put_other cell_append_new)

section \<open>insert\<close>

text \<open>
  Claim C3. For every tree and every item equal to a value already in the tree, insert
  fails with the "already present" error (the \<^verbatim>\<open>runtime_error\<close> with the message
  \<^verbatim>\<open>Item already in the tree\<close>), and the tree at the throw is the tree before the call:
  the store and the root are the same, so no node was created and no link or value
  changed.
\<close>

theorem insert_duplicate:
  assumes "layout_at (cells t) (myRoot t) s" and "bst_order s" and "item \<in> set (values_of s)"
  shows "insert_BST item t = Some (Throws (runtime_error ''Item already in the tree'') t)"
  using insert_loop_found[OF assms, of None] by (simp add: insert_BST_def)

lemma layout_tree_5_3_8: "layout_at (cells tree_5_3_8) (myRoot tree_5_3_8) layout_5_3_8"
  by (simp add: tree_5_3_8_def layout_5_3_8_def cell_def)

lemma bst_order_5_3_8: "bst_order layout_5_3_8"
  by (simp add: layout_5_3_8_def)

theorem insert_duplicate_witness:
  "layout_at (cells tree_5_3_8) (myRoot tree_5_3_8) layout_5_3_8 \<and> bst_order layout_5_3_8 \<and>
   8 \<in> set (values_of layout_5_3_8) \<and>
   insert_BST 8 tree_5_3_8 = Some (Throws (runtime_error ''Item already in the tree'') tree_5_3_8)"
proof -
  have m: "8 \<in> set (values_of layout_5_3_8)" by (simp add: layout_5_3_8_def)
  show ?thesis
    using insert_duplicate[OF layout_tree_5_3_8 bst_order_5_3_8 m] layout_tree_5_3_8 bst_order_5_3_8 m
    by simp
qed

text \<open>
  Claim C4. For every tree not containing the item, insert returns; exactly one cell is
  allocated, at the first unused address, and it holds the item with both links null. If
  the tree was empty it becomes the root. Otherwise the root stays, and the node the
  descent visited last gets the new node as its left child when the item is less than
  its value and as its right child otherwise, that child having been absent; nothing
  else in the store changes. The tree is then the old one with the new leaf in place,
  the order invariant holds, the values in order are strictly ascending, and they are
  the old values and the item, one more than before.
\<close>

theorem insert_new:
  assumes "layout_at (cells t) (myRoot t) s" and "bst_order s" and "item \<notin> set (values_of s)"
  shows "\<exists>t'. insert_BST item t = Some (Returns t') \<and>
           length (cells t') = Suc (length (cells t)) \<and>
           cell (cells t') (length (cells t)) = Some \<lparr>data = item, left = None, right = None\<rparr> \<and>
           (case last_visited item s None of
              None \<Rightarrow>
                myRoot t' = Some (length (cells t)) \<and>
                cells t' = cells t @ [Some \<lparr>data = item, left = None, right = None\<rparr>]
            | Some pa \<Rightarrow>
                myRoot t' = myRoot t \<and>
                (\<exists>pn. cell (cells t) pa = Some pn \<and>
                   (if item < data pn then left pn = None else data pn < item \<and> right pn = None) \<and>
                   cells t' =
                     put (cells t @ [Some \<lparr>data = item, left = None, right = None\<rparr>]) pa
                       (if item < data pn then pn\<lparr>left := Some (length (cells t))\<rparr>
                        else pn\<lparr>right := Some (length (cells t))\<rparr>))) \<and>
           layout_at (cells t') (myRoot t') (grow (length (cells t)) item s) \<and>
           bst_order (grow (length (cells t)) item s) \<and>
           sorted_wrt (<) (values_of (grow (length (cells t)) item s)) \<and>
           set (values_of (grow (length (cells t)) item s)) = insert item (set (values_of s)) \<and>
           length (values_of (grow (length (cells t)) item s)) = Suc (length (values_of s)) \<and>
           card (set (values_of (grow (length (cells t)) item s))) = Suc (card (set (values_of s)))"
proof (cases "s = Absent")
  case True
  let ?t' = "t\<lparr>cells := cells t @ [Some \<lparr>data = item, left = None, right = None\<rparr>],
                myRoot := Some (length (cells t))\<rparr>"
  have "insert_BST item t = Some (Returns ?t')"
    using insert_BST_root assms(1) True by blast
  then show ?thesis using True by (simp add: cell_append_new)
next
  case False
  let ?b = "length (cells t)"
  have card: "card (set (values_of (grow ?b item s))) = Suc (card (set (values_of s)))"
    using assms(3) by (simp add: set_values_of_grow)
  from insert_BST_below[OF assms(1,3) False] obtain pa pn where
    pa: "last_visited item s None = Some pa" "cell (cells t) pa = Some pn"
      "insert_BST item t = Some (Returns (t\<lparr>cells := linked_store (cells t) item pa pn\<rparr>))"
    by blast
  let ?t' = "t\<lparr>cells := linked_store (cells t) item pa pn\<rparr>"
  have live: "pa < ?b" using pa(2) by (rule cell_live)
  have stop: "if item < data pn then left pn = None else data pn < item \<and> right pn = None"
    using last_visited_stop[OF assms(1,3) False pa(1,2)] .
  have lay: "layout_at (cells ?t') (myRoot ?t') (grow ?b item s)"
    using grow_layout[OF assms False pa(1,2)] by simp
  have ord: "bst_order (grow ?b item s)" using bst_order_grow[OF assms(2,3)] .
  have store: "linked_store (cells t) item pa pn =
      put (cells t @ [Some \<lparr>data = item, left = None, right = None\<rparr>]) pa
        (if item < data pn then pn\<lparr>left := Some ?b\<rparr> else pn\<lparr>right := Some ?b\<rparr>)"
    by (simp add: linked_store_def Let_def)
  have c1: "insert_BST item t = Some (Returns ?t')" using pa(3) .
  have c2: "length (cells ?t') = Suc ?b" by (simp add: length_linked_store)
  have c3: "cell (cells ?t') ?b = Some \<lparr>data = item, left = None, right = None\<rparr>"
    using cell_linked_store_new[OF live] by simp
  have c4: "myRoot ?t' = myRoot t \<and>
        (\<exists>pn. cell (cells t) pa = Some pn \<and>
           (if item < data pn then left pn = None else data pn < item \<and> right pn = None) \<and>
           cells ?t' =
             put (cells t @ [Some \<lparr>data = item, left = None, right = None\<rparr>]) pa
               (if item < data pn then pn\<lparr>left := Some ?b\<rparr> else pn\<lparr>right := Some ?b\<rparr>))"
    using pa(2) stop store by auto
  show ?thesis
    apply (rule exI[of _ ?t'])
    using c1 c2 c3 c4 lay ord pa(1) card
      set_values_of_grow[OF assms(3), of ?b] length_values_of_grow[OF assms(3), of ?b]
    by (simp add: bst_order_sorted)
qed


theorem insert_new_witness:
  "layout_at (cells tree_5_3_8) (myRoot tree_5_3_8) layout_5_3_8 \<and> bst_order layout_5_3_8 \<and>
   4 \<notin> set (values_of layout_5_3_8) \<and>
   (\<exists>t'. insert_BST 4 tree_5_3_8 = Some (Returns t') \<and>
      cell (cells t') 3 = Some \<lparr>data = 4, left = None, right = None\<rparr> \<and>
      layout_at (cells t') (myRoot t')
        (Linked (Linked Absent 1 3 (Linked Absent 3 4 Absent)) 0 5 (Linked Absent 2 8 Absent)))"
proof -
  have m: "4 \<notin> set (values_of layout_5_3_8)" by (simp add: layout_5_3_8_def)
  have g: "grow 3 4 layout_5_3_8 =
      Linked (Linked Absent 1 3 (Linked Absent 3 4 Absent)) 0 5 (Linked Absent 2 8 Absent)"
    by (simp add: layout_5_3_8_def)
  have n: "length (cells tree_5_3_8) = 3" by (simp add: tree_5_3_8_def)
  from insert_new[OF layout_tree_5_3_8 bst_order_5_3_8 m] obtain t' where
    "insert_BST 4 tree_5_3_8 = Some (Returns t')"
    "cell (cells t') (length (cells tree_5_3_8)) = Some \<lparr>data = 4, left = None, right = None\<rparr>"
    "layout_at (cells t') (myRoot t') (grow (length (cells tree_5_3_8)) 4 layout_5_3_8)"
    by blast
  then show ?thesis
    using layout_tree_5_3_8 bst_order_5_3_8 m unfolding n g by blast
qed

section \<open>search\<close>

text \<open>
  Claim C1. The specification asks search to return true exactly for the values held
  by some node. The code returns false whatever the tree holds: after 5 has been
  inserted into the empty tree, searching for 5 gives false.
\<close>

theorem search_after_insert:
  "insert_BST (5::int) (BST_init []) = Some (Returns tree_5) \<and> search 5 tree_5 = False"
  by (simp add: insert_BST_def insert_loop.simps BST_init_def new_BinNode_def tree_5_def
      search_def)

section \<open>remove\<close>

lemma cell_delete_same: "cell (delete_BinNode h a) a = None"
  by (simp add: cell_def delete_BinNode_def)

lemma cell_delete_other: "c \<noteq> a \<Longrightarrow> cell (delete_BinNode h a) c = cell h c"
  by (simp add: cell_def delete_BinNode_def)

lemma subtrees_layout:
  "layout_at h p s \<Longrightarrow> Linked l a v r \<in> set (subtrees s) \<Longrightarrow> layout_at h (Some a) (Linked l a v r)"
proof (induction s arbitrary: p)
  case Absent
  then show ?case by simp
next
  case (Linked sl b w sr)
  from Linked.prems(1) obtain n where n: "p = Some b" "cell h b = Some n"
    "layout_at h (left n) sl" "layout_at h (right n) sr"
    by (auto split: option.splits)
  from Linked.prems(2) consider "Linked l a v r = Linked sl b w sr"
    | "Linked l a v r \<in> set (subtrees sl)" | "Linked l a v r \<in> set (subtrees sr)"
    by auto
  then show ?case
  proof cases
    case 1
    then show ?thesis using Linked.prems(1) by simp
  next
    case 2
    then show ?thesis using Linked.IH(1)[OF n(3)] by simp
  next
    case 3
    then show ?thesis using Linked.IH(2)[OF n(4)] by simp
  qed
qed

lemma subtrees_bst_order:
  "bst_order s \<Longrightarrow> u \<in> set (subtrees s) \<Longrightarrow> bst_order u"
  by (induction s) auto

lemma succ_of_some: "u \<noteq> Absent \<Longrightarrow> \<exists>sa sv sr. succ_of u = Some (sa, sv, sr)"
  by (induction u) auto

lemma successor_loop_layout:
  "layout_at h q u \<Longrightarrow> succ_of u = Some (sa, sv, sr) \<Longrightarrow>
   \<exists>sn. cell h sa = Some sn \<and> data sn = sv \<and> left sn = None \<and> layout_at h (right sn) sr \<and>
        successor_loop h q (Some x) = Some (Returns (Some sa, Some (succ_parent x u)))"
proof (induction u arbitrary: q x)
  case Absent
  then show ?case by simp
next
  case (Linked l a v r)
  from Linked.prems(1) obtain n where n: "q = Some a" "cell h a = Some n" "data n = v"
    "layout_at h (left n) l" "layout_at h (right n) r"
    by (auto split: option.splits)
  show ?case
  proof (cases "l = Absent")
    case True
    then have "left n = None" using n(4) by simp
    moreover from True Linked.prems(2) have "sa = a" "sv = v" "sr = r" by simp_all
    ultimately show ?thesis using n True
      by (subst successor_loop.simps) (simp add: deref_def)
  next
    case False
    then obtain c where c: "left n = Some c" using n(4) by (cases l) auto
    from False Linked.prems(2) have s: "succ_of l = Some (sa, sv, sr)" by simp
    from Linked.IH(1)[OF n(4) s, of a] obtain sn where
      sn: "cell h sa = Some sn" "data sn = sv" "left sn = None" "layout_at h (right sn) sr"
        "successor_loop h (left n) (Some a) = Some (Returns (Some sa, Some (succ_parent a l)))"
      by blast
    have "successor_loop h q (Some x) = Some (Returns (Some sa, Some (succ_parent x (Linked l a v r))))"
      using sn(5) n(1,2) c False by (subst successor_loop.simps) (simp add: deref_def)
    with sn show ?thesis by blast
  qed
qed

lemma succ_of_values:
  "succ_of u = Some (sa, sv, sr) \<Longrightarrow> values_of u = sv # values_of (without_succ u)"
  by (induction u) (auto split: if_splits)

lemma succ_of_addrs:
  "succ_of u = Some (sa, sv, sr) \<Longrightarrow> addrs_of u = sa # addrs_of (without_succ u)"
  by (induction u) (auto split: if_splits)

lemma succ_of_rest:
  "succ_of u = Some (sa, sv, sr) \<Longrightarrow> set (addrs_of sr) \<subseteq> set (addrs_of u)"
  by (induction u) (auto split: if_splits)

lemma layout_at_frame_except:
  assumes "layout_at h p u" and "set (addrs_of u) \<subseteq> A"
    and "\<forall>c \<in> A. c \<noteq> x \<longrightarrow> c \<noteq> y \<longrightarrow> cell h' c = cell h c"
    and "x \<notin> set (addrs_of u)" and "y \<notin> set (addrs_of u)"
  shows "layout_at h' p u"
proof (rule layout_at_frame[OF assms(1)], rule ballI)
  fix c assume c: "c \<in> set (addrs_of u)"
  then have "c \<in> A" using assms(2) by (rule subsetD[rotated])
  moreover have "c \<noteq> x" "c \<noteq> y" using c assms(4,5) by auto
  ultimately show "cell h' c = cell h c" using assms(3) by simp
qed

lemma unlink_below:
  "layout_at h q (Linked l a v r) \<Longrightarrow> distinct (addrs_of (Linked l a v r)) \<Longrightarrow> l \<noteq> Absent \<Longrightarrow>
   succ_of l = Some (sa, sv, sr) \<Longrightarrow> cell h sa = Some sn \<Longrightarrow>
   \<exists>pn. cell h (succ_parent x (Linked l a v r)) = Some pn \<and> left pn = Some sa \<and>
        succ_parent x (Linked l a v r) \<in> set (addrs_of (Linked l a v r)) \<and>
        succ_parent x (Linked l a v r) \<noteq> sa \<and>
        (\<forall>h'. cell h' (succ_parent x (Linked l a v r)) = Some (pn\<lparr>left := right sn\<rparr>) \<longrightarrow>
              (\<forall>c \<in> set (addrs_of (Linked l a v r)).
                  c \<noteq> succ_parent x (Linked l a v r) \<longrightarrow> c \<noteq> sa \<longrightarrow> cell h' c = cell h c) \<longrightarrow>
              layout_at h' q (Linked (without_succ l) a v r))"
proof (induction l arbitrary: q x a v r)
  case Absent
  then show ?case by simp
next
  case (Linked ll la lv lr)
  let ?u = "Linked (Linked ll la lv lr) a v r"
  from Linked.prems(1) obtain n where n: "q = Some a" "cell h a = Some n" "data n = v"
    "layout_at h (left n) (Linked ll la lv lr)" "layout_at h (right n) r"
    by (auto split: option.splits)
  from n(4) obtain m where m: "left n = Some la" "cell h la = Some m" "data m = lv"
    "layout_at h (left m) ll" "layout_at h (right m) lr"
    by (auto split: option.splits)
  have dist: "distinct (addrs_of ?u)" using Linked.prems(2) .
  have sa_in: "sa \<in> set (addrs_of (Linked ll la lv lr))"
    using succ_of_addrs[OF Linked.prems(4)] by simp
  show ?case
  proof (cases "ll = Absent")
    case True
    then have s: "sa = la" "sv = lv" "sr = lr" using Linked.prems(4) by simp_all
    then have snm: "sn = m" using Linked.prems(5) m(2) by simp
    have sp: "succ_parent x ?u = a" using True by simp
    have U: "set (addrs_of ?u) = {la} \<union> set (addrs_of lr) \<union> {a} \<union> set (addrs_of r)"
      using True by auto
    have d: "a \<noteq> la" "a \<notin> set (addrs_of lr)" "a \<notin> set (addrs_of r)"
      "la \<notin> set (addrs_of lr)" "la \<notin> set (addrs_of r)"
      using dist by auto
    have ne: "a \<noteq> sa" using d s by simp
    have ws: "without_succ (Linked ll la lv lr) = lr" using True by simp
    have step: "layout_at h' q (Linked (without_succ (Linked ll la lv lr)) a v r)"
      if h': "cell h' a = Some (n\<lparr>left := right sn\<rparr>)"
        "\<forall>c \<in> set (addrs_of ?u). c \<noteq> a \<longrightarrow> c \<noteq> sa \<longrightarrow> cell h' c = cell h c" for h'
    proof -
      have 1: "layout_at h' (right m) lr"
        using m(5) _ h'(2) d(2) by (rule layout_at_frame_except) (auto simp: U s d)
      have 2: "layout_at h' (right n) r"
        using n(5) _ h'(2) d(3) by (rule layout_at_frame_except) (auto simp: U s d)
      have "layout_at h' (Some a) (Linked lr a v r)"
        using n(3) h'(1) 1 2 snm by simp
      then show ?thesis unfolding ws n(1) .
    qed
    have au: "a \<in> set (addrs_of ?u)" unfolding U by simp
    have "cell h a = Some n \<and> left n = Some sa \<and> a \<in> set (addrs_of ?u) \<and> a \<noteq> sa \<and>
        (\<forall>h'. cell h' a = Some (n\<lparr>left := right sn\<rparr>) \<longrightarrow>
              (\<forall>c \<in> set (addrs_of ?u). c \<noteq> a \<longrightarrow> c \<noteq> sa \<longrightarrow> cell h' c = cell h c) \<longrightarrow>
              layout_at h' q (Linked (without_succ (Linked ll la lv lr)) a v r))"
      using n(2) m(1) s(1) ne au step by (intro conjI allI impI) simp_all
    then show ?thesis unfolding sp by (rule exI)
  next
    case False
    have dl: "distinct (addrs_of (Linked ll la lv lr))" using dist by auto
    have sl: "succ_of ll = Some (sa, sv, sr)" using False Linked.prems(4) by simp
    define sp where "sp = succ_parent a (Linked ll la lv lr)"
    have sp: "succ_parent x ?u = sp" by (simp add: sp_def)
    define L where "L = addrs_of (Linked ll la lv lr)"
    have U: "set (addrs_of ?u) = set L \<union> {a} \<union> set (addrs_of r)" by (auto simp: L_def)
    have dLr: "a \<notin> set L" "set L \<inter> set (addrs_of r) = {}" using dist by (auto simp: L_def)
    have ih: "\<exists>pn. cell h sp = Some pn \<and> left pn = Some sa \<and> sp \<in> set L \<and> sp \<noteq> sa \<and>
        (\<forall>h'. cell h' sp = Some (pn\<lparr>left := right sn\<rparr>) \<longrightarrow>
              (\<forall>c \<in> set L. c \<noteq> sp \<longrightarrow> c \<noteq> sa \<longrightarrow> cell h' c = cell h c) \<longrightarrow>
              layout_at h' (left n) (Linked (without_succ ll) la lv lr))"
      using Linked.IH(1)[OF n(4) dl False sl Linked.prems(5), of a]
      unfolding sp_def L_def .
    then obtain pn where
      pn: "cell h sp = Some pn" "left pn = Some sa" "sp \<in> set L" "sp \<noteq> sa"
      and pn5: "\<forall>h'. cell h' sp = Some (pn\<lparr>left := right sn\<rparr>) \<longrightarrow>
              (\<forall>c \<in> set L. c \<noteq> sp \<longrightarrow> c \<noteq> sa \<longrightarrow> cell h' c = cell h c) \<longrightarrow>
              layout_at h' (left n) (Linked (without_succ ll) la lv lr)"
      by (elim exE conjE)
    have sa_L: "sa \<in> set L" using sa_in by (simp add: L_def)
    have a_ne: "a \<noteq> sp" "a \<noteq> sa" using pn(3) sa_L dLr by auto
    have ws: "without_succ (Linked ll la lv lr) = Linked (without_succ ll) la lv lr"
      using False by simp
    have step: "layout_at h' q (Linked (without_succ (Linked ll la lv lr)) a v r)"
      if h': "cell h' sp = Some (pn\<lparr>left := right sn\<rparr>)"
        "\<forall>c \<in> set (addrs_of ?u). c \<noteq> sp \<longrightarrow> c \<noteq> sa \<longrightarrow> cell h' c = cell h c" for h'
    proof -
      have hL: "\<forall>c \<in> set L. c \<noteq> sp \<longrightarrow> c \<noteq> sa \<longrightarrow> cell h' c = cell h c"
        using h'(2) unfolding U by simp
      have 1: "layout_at h' (left n) (Linked (without_succ ll) la lv lr)"
        using pn5[THEN spec, THEN mp, THEN mp, OF h'(1) hL] .
      have spr: "sp \<notin> set (addrs_of r)" "sa \<notin> set (addrs_of r)"
        using dLr pn(3) sa_L by auto
      have 2: "layout_at h' (right n) r"
        using n(5) _ h'(2) spr by (rule layout_at_frame_except) auto
      have "a \<in> set (addrs_of ?u)" unfolding U by simp
      with h'(2) a_ne have "cell h' a = cell h a" by simp
      then have 3: "cell h' a = Some n" using n(2) by simp
      have "layout_at h' (Some a) (Linked (Linked (without_succ ll) la lv lr) a v r)"
        using n(3) 1 2 3 by (simp del: without_succ.simps)
      then show ?thesis unfolding ws n(1) .
    qed
    have spu: "sp \<in> set (addrs_of ?u)" using pn(3) unfolding U by simp
    have "cell h sp = Some pn \<and> left pn = Some sa \<and> sp \<in> set (addrs_of ?u) \<and> sp \<noteq> sa \<and>
        (\<forall>h'. cell h' sp = Some (pn\<lparr>left := right sn\<rparr>) \<longrightarrow>
              (\<forall>c \<in> set (addrs_of ?u). c \<noteq> sp \<longrightarrow> c \<noteq> sa \<longrightarrow> cell h' c = cell h c) \<longrightarrow>
              layout_at h' q (Linked (without_succ (Linked ll la lv lr)) a v r))"
      using pn spu step by (intro conjI allI impI)
    then show ?thesis unfolding sp by (rule exI)
  qed
qed


lemma layout_root_addr:
  "layout_at h p u \<Longrightarrow> u \<noteq> Absent \<Longrightarrow> \<exists>c \<in> set (addrs_of u). p = Some c"
  by (cases u) auto

lemma values_without_succ:
  "bst_order (Linked l a v r) \<Longrightarrow> succ_of r = Some (sa, sv, sr) \<Longrightarrow>
   bst_order (Linked l a sv (without_succ r)) \<and>
   values_of (Linked l a sv (without_succ r)) = values_of l @ values_of r"
proof -
  assume o: "bst_order (Linked l a v r)" and s: "succ_of r = Some (sa, sv, sr)"
  have v: "values_of r = sv # values_of (without_succ r)" using s by (rule succ_of_values)
  have "sorted_wrt (<) (values_of l @ v # values_of r)"
    using o unfolding bst_order_sorted by simp
  then have "sorted_wrt (<) (values_of l @ values_of r)"
    by (auto simp: sorted_wrt_append)
  then have "sorted_wrt (<) (values_of (Linked l a sv (without_succ r)))"
    using v by simp
  then show ?thesis using v unfolding bst_order_sorted by simp
qed

text \<open>
  Lines 267--295 on their own. Take any ordered tree and a node of it, at address \<open>a\<close>,
  with two children \<open>l\<close> and \<open>r\<close>, and suppose the variables of \<^verbatim>\<open>remove\<close> hold
  \<open>found = true\<close> and \<open>x\<close> that node after \<^verbatim>\<open>search2\<close>, whatever \<open>parent\<close> holds and
  whatever the item is. Then the loop from the right child ends at the leftmost node
  \<open>sa\<close> of \<open>r\<close>, which has no left child, with \<open>parent\<close> the parent of that node
  (\<open>succ_parent a r\<close> is \<open>a\<close> itself when the right child has no left child);
  \<^verbatim>\<open>remove\<close> returns; the root is the same; the cell of the successor is deleted; no
  cell but those of the node, of the successor and of its parent changes; and below
  the node the store holds \<open>l\<close>, the successor's value, and \<open>r\<close> with the successor
  replaced by its right subtree. Nothing in \<^verbatim>\<open>remove\<close> makes the variables hold these
  values: \<^verbatim>\<open>search2\<close> sets none of them.
\<close>

lemma two_children_branch:
  assumes "layout_at (cells t) (myRoot t) s" and "bst_order s"
    and "Linked l a v r \<in> set (subtrees s)" and "l \<noteq> Absent" and "r \<noteq> Absent"
  shows "\<exists>sa sv sr sn xn t'.
     succ_of r = Some (sa, sv, sr) \<and>
     cell (cells t) sa = Some sn \<and> data sn = sv \<and> left sn = None \<and>
     cell (cells t) a = Some xn \<and>
     successor_loop (cells t) (right xn) (Some a) =
       Some (Returns (Some sa, Some (succ_parent a r))) \<and>
     remove_BST item t True (Some a) parent0 = Some (Returns t') \<and>
     myRoot t' = myRoot t \<and>
     cell (cells t') sa = None \<and>
     (\<forall>c. c \<noteq> a \<and> c \<noteq> sa \<and> c \<noteq> succ_parent a r \<longrightarrow> cell (cells t') c = cell (cells t) c) \<and>
     layout_at (cells t') (Some a) (Linked l a sv (without_succ r)) \<and>
     bst_order (Linked l a sv (without_succ r)) \<and>
     values_of (Linked l a sv (without_succ r)) = values_of l @ values_of r"
proof -
  let ?h = "cells t"
  let ?u = "Linked l a v r"
  have lay_u: "layout_at ?h (Some a) ?u" using subtrees_layout[OF assms(1,3)] .
  have ord_u: "bst_order ?u" using subtrees_bst_order[OF assms(2,3)] .
  have dist_u: "distinct (addrs_of ?u)" using bst_order_distinct[OF lay_u ord_u] .
  from lay_u obtain xn where xn: "cell ?h a = Some xn" "data xn = v"
    "layout_at ?h (left xn) l" "layout_at ?h (right xn) r"
    by (auto split: option.splits)
  from layout_root_addr[OF xn(3) assms(4)] obtain la where
    la: "la \<in> set (addrs_of l)" "left xn = Some la" by blast
  from layout_root_addr[OF xn(4) assms(5)] obtain ra where
    ra: "ra \<in> set (addrs_of r)" "right xn = Some ra" by blast
  from succ_of_some[OF assms(5)] obtain sa sv sr where succ: "succ_of r = Some (sa, sv, sr)"
    by blast
  define sp where "sp = succ_parent a r"
  from successor_loop_layout[OF xn(4) succ, of a] obtain sn where
    sn: "cell ?h sa = Some sn" "data sn = sv" "left sn = None" "layout_at ?h (right sn) sr"
    and loop: "successor_loop ?h (right xn) (Some a) = Some (Returns (Some sa, Some sp))"
    unfolding sp_def by blast
  have sa_r: "sa \<in> set (addrs_of r)" using succ_of_addrs[OF succ] by simp
  have d: "a \<notin> set (addrs_of l)" "a \<notin> set (addrs_of r)"
    "set (addrs_of l) \<inter> set (addrs_of r) = {}" "distinct (addrs_of r)"
    using dist_u by auto
  have ne: "sa \<noteq> a" "la \<noteq> sa" "sa \<notin> set (addrs_of l)" using sa_r la(1) d by auto
  have a_live: "a < length ?h" using xn(1) by (rule cell_live)
  define t1 where "t1 = t\<lparr>cells := put ?h a (xn\<lparr>data := data sn\<rparr>)\<rparr>"
  have run: "remove_BST item t True (Some a) parent0 = Some (unlink_node t1 (Some sa) (Some sp))"
    using xn(1) la(2) ra(2) loop sn(1)
    by (simp add: remove_BST_def search2_def deref_def t1_def)
  have c1_sa: "cell (cells t1) sa = Some sn"
    using sn(1) ne(1) by (simp add: t1_def cell_put_other)
  have c1_a: "cell (cells t1) a = Some (xn\<lparr>data := sv\<rparr>)"
    using a_live sn(2) by (simp add: t1_def cell_put_same)
  have len1: "length (cells t1) = length ?h" by (simp add: t1_def length_put)
  have "\<exists>t'. unlink_node t1 (Some sa) (Some sp) = Returns t' \<and> myRoot t' = myRoot t \<and>
          cell (cells t') sa = None \<and>
          (\<forall>c. c \<noteq> a \<and> c \<noteq> sa \<and> c \<noteq> sp \<longrightarrow> cell (cells t') c = cell ?h c) \<and>
          layout_at (cells t') (Some a) (Linked l a sv (without_succ r))"
  proof (cases r)
    case Absent
    then show ?thesis using assms(5) by simp
  next
    case (Linked rl rb rv rr)
    show ?thesis
    proof (cases "rl = Absent")
      case True
      have s: "sa = rb" "sv = rv" "sr = rr" using succ Linked True by simp_all
      have spa: "sp = a" using Linked True by (simp add: sp_def)
      have ws: "without_succ r = sr" using Linked True s by simp
      let ?xn' = "xn\<lparr>data := sv, right := right sn\<rparr>"
      let ?t' = "t1\<lparr>cells := delete_BinNode (put (cells t1) a ?xn') sa\<rparr>"
      have u: "unlink_node t1 (Some sa) (Some sp) = Returns ?t'"
        using c1_sa c1_a sn(3) la(2) ne(2) spa by (simp add: unlink_node_def Let_def)
      have ca: "cell (cells ?t') a = Some ?xn'"
        using a_live len1 ne(1) by (simp add: cell_delete_other cell_put_same)
      have csa: "cell (cells ?t') sa = None" by (simp add: cell_delete_same)
      have other: "cell (cells ?t') c = cell ?h c" if "c \<noteq> a" "c \<noteq> sa" for c
        using that by (simp add: cell_delete_other cell_put_other t1_def)
      have sr_sub: "set (addrs_of sr) \<subseteq> set (addrs_of r)" using succ by (rule succ_of_rest)
      have sa_sr: "sa \<notin> set (addrs_of sr)" using d(4) Linked s by auto
      have a_sr: "a \<notin> set (addrs_of sr)" using sr_sub d(2) by auto
      have "\<forall>c \<in> set (addrs_of l). cell (cells ?t') c = cell ?h c"
        using other d(1) ne(3) by metis
      with xn(3) have 1: "layout_at (cells ?t') (left xn) l" by (rule layout_at_frame)
      have "\<forall>c \<in> set (addrs_of sr). cell (cells ?t') c = cell ?h c"
        using other a_sr sa_sr by metis
      with sn(4) have 2: "layout_at (cells ?t') (right sn) sr" by (rule layout_at_frame)
      have lay: "layout_at (cells ?t') (Some a) (Linked l a sv sr)"
        using ca 1 2 by simp
      have root: "myRoot ?t' = myRoot t" by (simp add: t1_def)
      show ?thesis
        apply (rule exI[of _ ?t'])
        using u root csa other lay unfolding ws by blast
    next
      case False
      have lay_r: "layout_at ?h (Some ra) (Linked rl rb rv rr)" using xn(4) ra(2) Linked by simp
      have dist_r: "distinct (addrs_of (Linked rl rb rv rr))" using d(4) Linked by simp
      have succ_l: "succ_of rl = Some (sa, sv, sr)" using succ Linked False by simp
      have ws: "without_succ r = Linked (without_succ rl) rb rv rr" using Linked False by simp
      from unlink_below[OF lay_r dist_r False succ_l sn(1), of a]
      obtain pn where pn: "cell ?h sp = Some pn" "left pn = Some sa" "sp \<in> set (addrs_of r)"
        "sp \<noteq> sa"
        and pn5: "\<forall>h'. cell h' sp = Some (pn\<lparr>left := right sn\<rparr>) \<longrightarrow>
              (\<forall>c \<in> set (addrs_of r). c \<noteq> sp \<longrightarrow> c \<noteq> sa \<longrightarrow> cell h' c = cell ?h c) \<longrightarrow>
              layout_at h' (Some ra) (without_succ r)"
        unfolding sp_def Linked[symmetric] ws[symmetric] by (elim exE conjE)
      have sp_ne: "sp \<noteq> a" "sp \<notin> set (addrs_of l)" using pn(3) d by auto
      have sp_live: "sp < length ?h" using pn(1) by (rule cell_live)
      let ?pn' = "pn\<lparr>left := right sn\<rparr>"
      let ?t' = "t1\<lparr>cells := delete_BinNode (put (cells t1) sp ?pn') sa\<rparr>"
      have c1_sp: "cell (cells t1) sp = Some pn"
        using pn(1) sp_ne(1) by (simp add: t1_def cell_put_other)
      have u: "unlink_node t1 (Some sa) (Some sp) = Returns ?t'"
        using c1_sa c1_sp sn(3) pn(2) by (simp add: unlink_node_def Let_def)
      have ca: "cell (cells ?t') a = Some (xn\<lparr>data := sv\<rparr>)"
        using c1_a ne(1) sp_ne(1) by (simp add: cell_delete_other cell_put_other)
      have csp: "cell (cells ?t') sp = Some ?pn'"
        using sp_live len1 pn(4) by (simp add: cell_delete_other cell_put_same)
      have csa: "cell (cells ?t') sa = None" by (simp add: cell_delete_same)
      have other: "cell (cells ?t') c = cell ?h c" if "c \<noteq> a" "c \<noteq> sa" "c \<noteq> sp" for c
        using that by (simp add: cell_delete_other cell_put_other t1_def)
      have "\<forall>c \<in> set (addrs_of l). cell (cells ?t') c = cell ?h c"
        using other d(1) ne(3) sp_ne(2) by metis
      with xn(3) have 1: "layout_at (cells ?t') (left xn) l" by (rule layout_at_frame)
      have "\<forall>c \<in> set (addrs_of r). c \<noteq> sp \<longrightarrow> c \<noteq> sa \<longrightarrow> cell (cells ?t') c = cell ?h c"
        using other d(2) by metis
      from pn5[THEN spec, THEN mp, THEN mp, OF csp this]
      have 2: "layout_at (cells ?t') (right xn) (without_succ r)" using ra(2) by simp
      have lay: "layout_at (cells ?t') (Some a) (Linked l a sv (without_succ r))"
        using ca 1 2 by simp
      have root: "myRoot ?t' = myRoot t" by (simp add: t1_def)
      show ?thesis
        apply (rule exI[of _ ?t'])
        using u root csa other lay by blast
    qed
  qed
  then obtain t' where t': "unlink_node t1 (Some sa) (Some sp) = Returns t'" "myRoot t' = myRoot t"
    "cell (cells t') sa = None"
    "\<forall>c. c \<noteq> a \<and> c \<noteq> sa \<and> c \<noteq> sp \<longrightarrow> cell (cells t') c = cell ?h c"
    "layout_at (cells t') (Some a) (Linked l a sv (without_succ r))"
    by (elim exE conjE)
  have fin: "remove_BST item t True (Some a) parent0 = Some (Returns t')"
    using run t'(1) by simp
  note vals = values_without_succ[OF ord_u succ]
  show ?thesis
    apply (rule exI[of _ sa], rule exI[of _ sv], rule exI[of _ sr], rule exI[of _ sn],
        rule exI[of _ xn], rule exI[of _ t'])
    using succ sn(1,2,3) xn(1) loop fin t'(2,3,4,5) vals unfolding sp_def
    by (intro conjI) simp_all
qed

lemma two_children_branch_example:
  "layout_at (cells tree_5_3_8) (myRoot tree_5_3_8) layout_5_3_8 \<and> bst_order layout_5_3_8 \<and>
   Linked (Linked Absent 1 3 Absent) 0 5 (Linked Absent 2 8 Absent) \<in> set (subtrees layout_5_3_8) \<and>
   Linked Absent 1 3 Absent \<noteq> Absent \<and> Linked Absent 2 (8::int) Absent \<noteq> Absent \<and>
   succ_parent 0 (Linked Absent 2 (8::int) Absent) = 0 \<and>
   (\<exists>t'. remove_BST 5 tree_5_3_8 True (Some 0) (Some 7) = Some (Returns t') \<and>
      myRoot t' = Some 0 \<and> cell (cells t') 2 = None \<and>
      layout_at (cells t') (Some 0) (Linked (Linked Absent 1 3 Absent) 0 8 Absent))"
proof -
  have m: "Linked (Linked Absent 1 3 Absent) 0 5 (Linked Absent 2 8 Absent) \<in> set (subtrees layout_5_3_8)"
    by (simp add: layout_5_3_8_def)
  have l: "Linked Absent 1 (3::int) Absent \<noteq> Absent" by simp
  have r: "Linked Absent 2 (8::int) Absent \<noteq> Absent" by simp
  from two_children_branch[OF layout_tree_5_3_8 bst_order_5_3_8 m l r, of 5 "Some 7"]
  obtain sa sv sr t' where
    "succ_of (Linked Absent 2 (8::int) Absent) = Some (sa, sv, sr)"
    "remove_BST 5 tree_5_3_8 True (Some 0) (Some 7) = Some (Returns t')"
    "myRoot t' = myRoot tree_5_3_8" "cell (cells t') sa = None"
    "layout_at (cells t') (Some 0)
       (Linked (Linked Absent 1 3 Absent) 0 sv (without_succ (Linked Absent 2 8 Absent)))"
    by blast
  moreover from this(1) have "sa = 2" "sv = 8" by simp_all
  moreover have "myRoot tree_5_3_8 = Some 0" by (simp add: tree_5_3_8_def)
  ultimately show ?thesis
    using layout_tree_5_3_8 bst_order_5_3_8 m by auto
qed

text \<open>
  Claim C6. The specification asks \<^verbatim>\<open>remove\<close> of an item whose node has two children to
  find the inorder successor of that node, copy its value and destroy it. In the tree of
  5, 3, 8 the node of 5 has two children, yet \<^verbatim>\<open>remove(5)\<close> never looks for 5: it throws
  and changes nothing when its unset variable \<open>found\<close> happens to hold false; it
  dereferences the unset pointer \<open>x\<close> when \<open>found\<close> holds true and \<open>x\<close> is null; and
  it destroys the node of 3, keeping 5, when \<open>x\<close> happens to hold that node and
  \<open>parent\<close> the root.
\<close>

theorem remove_two_children:
  "insert_BST 5 (BST_init []) = Some (Returns tree_5) \<and>
   insert_BST 3 tree_5 = Some (Returns tree_5_3) \<and>
   insert_BST 8 tree_5_3 = Some (Returns tree_5_3_8) \<and>
   remove_BST 5 tree_5_3_8 False None None =
     Some (Throws (runtime_error ''Item not in the BST'') tree_5_3_8) \<and>
   remove_BST 5 tree_5_3_8 True None None = Some Undefined \<and>
   remove_BST 5 tree_5_3_8 True (Some 1) (Some 0) = Some (Returns tree_5_8)"
  by code_simp

text \<open>Lines 267--295 on the second scenario of the specification: when the variables of
  \<^verbatim>\<open>remove\<close> hold \<open>found = true\<close> and \<open>x\<close> the root of the tree of 5, 3, 8, 1, 4, 7, 9,
  the successor is 7 and its parent is 8.\<close>

lemma remove_root_of_tree_7:
  "insert_all [5, 3, 8, 1, 4, 7, 9] (BST_init []) = Some (Returns tree_7) \<and>
   successor_loop (cells tree_7) (Some 2) (Some 0) = Some (Returns (Some 5, Some 2)) \<and>
   remove_BST 5 tree_7 True (Some 0) None = Some (Returns tree_7_without_5) \<and>
   inorder digit tree_7_without_5 [] '','' = Some (Returns (tree_7_without_5, ''1,3,4,7,8,9,''))"
  by code_simp

text \<open>
  Claim C2. The specification asks \<^verbatim>\<open>remove\<close> of an absent item to fail with the "not
  present" error and leave the tree as it was. The code decides on the variable
  \<open>found\<close>, which nothing has set: on the empty tree, \<^verbatim>\<open>remove(5)\<close> throws when
  \<open>found\<close> happens to hold false, and dereferences the pointer \<open>x\<close>, which nothing has
  set either, when it happens to hold true.
\<close>

theorem remove_on_empty_tree:
  "remove_BST (5::int) (BST_init []) True x0 parent0 = Some Undefined \<and>
   remove_BST (5::int) (BST_init []) False x0 parent0 =
     Some (Throws (runtime_error ''Item not in the BST'') (BST_init []))"
  by (simp add: remove_BST_def search2_def BST_init_def cell_def split: option.splits)

text \<open>
  Claim C5. The specification asks \<^verbatim>\<open>remove\<close> of a present item to destroy its node.
  In the tree that holds just 5, \<^verbatim>\<open>remove(5)\<close> throws "Item not in the BST" and removes
  nothing when \<open>found\<close> happens to hold false, and dereferences the unset pointer \<open>x\<close>
  (here null) when it happens to hold true.
\<close>

theorem remove_present_item:
  "insert_BST (5::int) (BST_init []) = Some (Returns tree_5) \<and>
   remove_BST 5 tree_5 False x0 parent0 = Some (Throws (runtime_error ''Item not in the BST'') tree_5) \<and>
   remove_BST 5 tree_5 True None parent0 = Some Undefined"
  by (simp add: insert_BST_def insert_loop.simps BST_init_def new_BinNode_def tree_5_def
      remove_BST_def search2_def)

section \<open>Traversals and graph\<close>

lemma inorderAux_text:
  "layout_at (cells t) p s \<Longrightarrow>
   inorderAux fmt (t, out) p separator = Some (Returns (t, out @ inorder_text fmt separator s))"
proof (induction s arbitrary: p out)
  case Absent
  then show ?case by (subst inorderAux.simps) (simp add: inorder_text_def)
next
  case (Linked l a v r)
  from Linked.prems obtain n where n: "p = Some a" "cell (cells t) a = Some n" "data n = v"
    "layout_at (cells t) (left n) l" "layout_at (cells t) (right n) r"
    by (auto split: option.splits)
  show ?case
    using Linked.IH(1)[OF n(4)] Linked.IH(2)[OF n(5)] n(1,2,3)
    by (subst inorderAux.simps) (simp add: inorder_text_def)
qed



lemma margin_plain: "margin plain i = replicate (max i 1) CHR '' ''"
proof (cases i)
  case 0
  then show ?thesis by (simp add: margin_def plain_def)
next
  case (Suc k)
  then show ?thesis by (simp add: margin_def plain_def replicate_append_same)
qed


lemma graphAux_returns:
  "layout_at (cells t) p s \<Longrightarrow>
   \<exists>text. graphAux fmt st (t, out) indent p = Some (Returns (t, out @ text))"
proof (induction s arbitrary: p out indent)
  case Absent
  then show ?case by (subst graphAux.simps) simp
next
  case (Linked l a v r)
  from Linked.prems obtain n where n: "p = Some a" "cell (cells t) a = Some n" "data n = v"
    "layout_at (cells t) (left n) l" "layout_at (cells t) (right n) r"
    by (auto split: option.splits)
  from Linked.IH(2)[OF n(5), of out "indent + 8"] obtain tr where
    tr: "graphAux fmt st (t, out) (indent + 8) (right n) = Some (Returns (t, out @ tr))"
    by blast
  from Linked.IH(1)[OF n(4), of "out @ tr @ setw st (sint indent) '' '' @ fmt v @ endl" "indent + 8"]
  obtain tl where
    tl: "graphAux fmt st (t, out @ tr @ setw st (sint indent) '' '' @ fmt v @ endl) (indent + 8) (left n) =
      Some (Returns (t, (out @ tr @ setw st (sint indent) '' '' @ fmt v @ endl) @ tl))"
    by blast
  have "graphAux fmt st (t, out) indent p =
      Some (Returns (t, out @ (tr @ setw st (sint indent) '' '' @ fmt v @ endl @ tl)))"
    using tr tl n(1,2,3) by (subst graphAux.simps) simp
  then show ?case by blast
qed

lemma graph_empty_tree:
  "myRoot t = None \<Longrightarrow> graph fmt st t out = Some (Returns (t, out @ '' _'' @ [CHR 0x0A]))"
  by (simp add: graph_def graphAux.simps setw_def endl_def)






text \<open>On a stream that fills with stars the margin is made of stars, up to the blank.\<close>

lemma graph_on_starred_stream:
  "graph digit starred tree_5 [] =
     Some (Returns (tree_5,
       ''******* _'' @ [CHR 0x0A] @ '' 5'' @ [CHR 0x0A] @ ''******* _'' @ [CHR 0x0A]))"
  by code_simp

text \<open>
  Claim C10. For every tree, inorder, preorder, postorder and graph return and leave
  the tree as it was: the state after the call is the state before it, root, store and
  all; they only append to the stream (preorder and postorder append nothing). On an
  empty tree, graph appends the one line of the marker \<open>_\<close>: a blank, the marker and a
  newline, whatever the fill character of the stream.
\<close>

theorem traversals_keep_tree:
  assumes "layout_at (cells t) (myRoot t) s"
  shows "inorder fmt t out separator = Some (Returns (t, out @ inorder_text fmt separator s)) \<and>
         preorder fmt t out separator = Some (Returns (t, out)) \<and>
         postorder fmt t out separator = Some (Returns (t, out)) \<and>
         (\<exists>text. graph fmt st t out = Some (Returns (t, out @ text))) \<and>
         (s = Absent \<longrightarrow> graph fmt st t out = Some (Returns (t, out @ '' _'' @ [CHR 0x0A])))"
proof -
  have "s = Absent \<longrightarrow> myRoot t = None" using assms by auto
  then show ?thesis
    using inorderAux_text[OF assms, of fmt out separator]
      graphAux_returns[OF assms, of fmt st out 0] graph_empty_tree[of t fmt st out]
    by (auto simp add: inorder_def graph_def preorder_def postorder_def)
qed

lemma inorder_text_5_3_8: "inorder_text digit '','' layout_5_3_8 = ''3,5,8,''"
  by code_simp

theorem traversals_keep_tree_witness:
  "layout_at (cells tree_5_3_8) (myRoot tree_5_3_8) layout_5_3_8 \<and>
   inorder digit tree_5_3_8 [] '','' = Some (Returns (tree_5_3_8, ''3,5,8,'')) \<and>
   preorder digit tree_5_3_8 [] '','' = Some (Returns (tree_5_3_8, [])) \<and>
   postorder digit tree_5_3_8 [] '','' = Some (Returns (tree_5_3_8, [])) \<and>
   (\<exists>text. graph digit starred tree_5_3_8 [] = Some (Returns (tree_5_3_8, text))) \<and>
   layout_at (cells (BST_init [])) (myRoot (BST_init [] :: int BST)) Absent \<and>
   graph digit starred (BST_init []) [] = Some (Returns (BST_init [], '' _'' @ [CHR 0x0A]))"
proof -
  have e: "layout_at (cells (BST_init [])) (myRoot (BST_init [] :: int BST)) Absent"
    by (simp add: BST_init_def)
  show ?thesis
    using traversals_keep_tree[OF layout_tree_5_3_8, of digit "[]" "'',''" starred]
      traversals_keep_tree[OF e, of digit "[]" "'',''" starred]
      layout_tree_5_3_8 e
    unfolding inorder_text_5_3_8 by simp
qed

text \<open>
  Claim C8. The specification asks each of the three traversals to write every element
  once, followed by the separator. On the tree that holds just 5, inorder writes
  \<open>5,\<close>; preorder and postorder, whose bodies are empty, write nothing.
\<close>

theorem preorder_postorder_write_nothing:
  "inorder digit tree_5 [] '','' = Some (Returns (tree_5, ''5,'')) \<and>
   preorder digit tree_5 [] '','' = Some (Returns (tree_5, [])) \<and>
   postorder digit tree_5 [] '','' = Some (Returns (tree_5, []))"
  by code_simp

section \<open>Sequences of calls\<close>

lemma insert_BST_keeps_order:
  assumes "layout_at (cells t) (myRoot t) s" and "bst_order s"
  shows "\<exists>t' s'. (insert_BST x t = Some (Returns t') \<or> (\<exists>e. insert_BST x t = Some (Throws e t'))) \<and>
           layout_at (cells t') (myRoot t') s' \<and> bst_order s' \<and>
           set (values_of s') = insert x (set (values_of s))"
proof (cases "x \<in> set (values_of s)")
  case True
  have "insert_BST x t = Some (Throws (runtime_error ''Item already in the tree'') t)"
    using insert_loop_found[OF assms True, of None] by (simp add: insert_BST_def)
  then show ?thesis using assms True by (intro exI[of _ t] exI[of _ s]) auto
next
  case False
  let ?b = "length (cells t)"
  have ord: "bst_order (grow ?b x s)" using bst_order_grow[OF assms(2) False] .
  have vals: "set (values_of (grow ?b x s)) = insert x (set (values_of s))"
    using set_values_of_grow[OF False] .
  show ?thesis
  proof (cases "s = Absent")
    case True
    let ?t' = "t\<lparr>cells := cells t @ [Some \<lparr>data = x, left = None, right = None\<rparr>],
                  myRoot := Some ?b\<rparr>"
    have "insert_BST x t = Some (Returns ?t')" using insert_BST_root assms(1) True by blast
    moreover have "layout_at (cells ?t') (myRoot ?t') (grow ?b x s)"
      using True by (simp add: cell_append_new)
    ultimately show ?thesis using ord vals by blast
  next
    case ne: False
    from insert_BST_below[OF assms(1) False ne] obtain pa pn where
      pa: "last_visited x s None = Some pa" "cell (cells t) pa = Some pn"
        "insert_BST x t = Some (Returns (t\<lparr>cells := linked_store (cells t) x pa pn\<rparr>))"
      by blast
    let ?t' = "t\<lparr>cells := linked_store (cells t) x pa pn\<rparr>"
    have "layout_at (cells ?t') (myRoot ?t') (grow ?b x s)"
      using grow_layout[OF assms False ne pa(1,2)] by simp
    with pa(3) show ?thesis using ord vals by blast
  qed
qed

lemma inserts_keep_order:
  assumes "layout_at (cells t) (myRoot t) s" and "bst_order s"
  shows "\<exists>t' s'. insert_all xs t = Some (Returns t') \<and>
           layout_at (cells t') (myRoot t') s' \<and> bst_order s' \<and>
           sorted_wrt (<) (values_of s') \<and>
           set (values_of s') = set (values_of s) \<union> set xs \<and>
           inorder fmt t' out separator = Some (Returns (t', out @ inorder_text fmt separator s'))"
  using assms
proof (induction xs arbitrary: t s)
  case Nil
  then show ?case
    using inorderAux_text[OF Nil(1), of fmt out separator]
    by (intro exI[of _ t] exI[of _ s]) (simp add: inorder_def bst_order_sorted)
next
  case (Cons x xs)
  from insert_BST_keeps_order[OF Cons.prems, of x] obtain t1 s1 where
    1: "insert_BST x t = Some (Returns t1) \<or> (\<exists>e. insert_BST x t = Some (Throws e t1))"
      "layout_at (cells t1) (myRoot t1) s1" "bst_order s1"
      "set (values_of s1) = insert x (set (values_of s))"
    by blast
  from Cons.IH[OF 1(2,3)] obtain t' s' where
    2: "insert_all xs t1 = Some (Returns t')" "layout_at (cells t') (myRoot t') s'" "bst_order s'"
      "sorted_wrt (<) (values_of s')" "set (values_of s') = set (values_of s1) \<union> set xs"
      "inorder fmt t' out separator = Some (Returns (t', out @ inorder_text fmt separator s'))"
    by blast
  have "insert_all (x # xs) t = Some (Returns t')" using 1(1) 2(1) by auto
  moreover have "set (values_of s') = set (values_of s) \<union> set (x # xs)" using 1(4) 2(5) by auto
  ultimately show ?case using 2(2,3,4,6) by blast
qed

text \<open>
  Claim C7. The specification asks every sequence of insert and remove calls to keep
  the order invariant. After 5, 3 and 8 have been inserted, \<^verbatim>\<open>remove(3)\<close> works on what
  its unset variables hold: with \<open>found\<close> true, \<open>x\<close> the node of 3 and \<open>parent\<close> the node
  of 8, it deletes the node of 3 and leaves the left link of the root pointing at the
  deleted cell, so that the inorder traversal dereferences a dangling pointer.
\<close>

theorem remove_then_inorder:
  "insert_BST 5 (BST_init []) = Some (Returns tree_5) \<and>
   insert_BST 3 tree_5 = Some (Returns tree_5_3) \<and>
   insert_BST 8 tree_5_3 = Some (Returns tree_5_3_8) \<and>
   remove_BST 3 tree_5_3_8 True (Some 1) (Some 2) = Some (Returns tree_5_3_8_dangling) \<and>
   inorder digit tree_5_3_8_dangling [] '','' = Some Undefined"
  by code_simp

end
